theory Spec2Isabelle
  imports Main "HOL-Library.AList" "HOL-Library.Sublist"
begin

section \<open>The channel tree engine of app-radio\<close>

text \<open>
  The model follows \<^verbatim>\<open>src/radio.ts\<close> (class \<^verbatim>\<open>AppRadio\<close>); the static variant of the
  same engine has the same bodies.

  \<^item> Strings are \<open>string\<close>, read as UTF-8: a slash is the byte 47 and no other
    character holds that byte. \<^verbatim>\<open>toLowerCase\<close> folds A to Z in a string of ASCII
    characters; what it gives on any other string is a parameter \<open>u\<close> of the model,
    the case conversion of the host, of which nothing is assumed. Every function that
    lower-cases a path takes \<open>u\<close> as its first argument.
  \<^item> A \<^verbatim>\<open>TChannelNode\<close> is a tree; its \<^verbatim>\<open>children\<close> Map is an association list in
    insertion order. The program never removes or moves a node, so a reference to a
    node is the sequence of keys leading to it from the root.
  \<^item> A listener is a function value compared by identity. A handler of the caller is
    \<open>Handler i\<close>; the closure that \<^verbatim>\<open>listenOnce\<close> builds is \<open>Once k path h\<close>, where
    \<open>k\<close> is a number no earlier closure has.
  \<^item> Calling a handler of the caller is recorded in the log \<open>calls\<close>; what such a handler
    does besides (for instance calling the radio again) is outside the model.
  \<^item> \<^verbatim>\<open>setTimeout\<close> appends a task to the queue \<open>timers\<close>; \<open>tick\<close> runs the oldest
    task and \<open>drain\<close> runs them all, oldest first.
\<close>

subsection \<open>Values, messages, listeners\<close>

text \<open>
  A payload is any value. \<open>VRef\<close> stands for an object that is not a message (it has no
  \<^verbatim>\<open>channel\<close>), known by its identity only.
\<close>

datatype jsval = VUndefined | VNull | VBool bool | VNum int | VStr string | VRef nat

record message =
  channel :: string
  payload :: jsval

text \<open>The argument of \<^verbatim>\<open>broadcast\<close> and \<^verbatim>\<open>stream\<close>: a message object, or any other value.\<close>

datatype arg = Msg message | Bare jsval

datatype error = TypeError

datatype listener = Handler nat | Once nat string listener

datatype node = Node (children: "(string \<times> node) list")
                     (currentInfo: "message option")
                     (listeners: "listener list")

datatype task = Deliver listener jsval | Replay "string list" listener

record radio =
  listenersRoot :: node
  timers :: "task list"
  calls :: "(nat \<times> jsval) list"
  closures :: nat

definition emptyNode :: node where
  "emptyNode = Node [] None []"

definition newRadio :: radio where
  "newRadio = \<lparr>listenersRoot = emptyNode, timers = [], calls = [], closures = 0\<rparr>"

subsection \<open>Strings\<close>

text \<open>
  The lower-case form of an ASCII character; \<open>toLowerCase\<close> applies it to ASCII
  characters only.
\<close>

definition lowerChar :: "char \<Rightarrow> char" where
  "lowerChar c = (let n = (of_char c :: nat) in
     if 65 \<le> n \<and> n \<le> 90 then char_of (n + 32) else c)"

definition isAscii :: "char \<Rightarrow> bool" where
  "isAscii c = ((of_char c :: nat) < 128)"

text \<open>
  \<^verbatim>\<open>String.prototype.toLowerCase\<close>. On ASCII characters the conversion of the language
  is the folding of A to Z; the result on a string with other characters is \<open>u s\<close>.
\<close>

definition toLowerCase :: "(string \<Rightarrow> string) \<Rightarrow> string \<Rightarrow> string" where
  "toLowerCase u s = (if list_all isAscii s then map lowerChar s else u s)"

text \<open>\<^verbatim>\<open>s.split('/')\<close>: the pieces between the slashes; never an empty array.\<close>

fun split_slash :: "string \<Rightarrow> string list" where
  "split_slash [] = [[]]"
| "split_slash (c # cs) =
     (if c = CHR ''/'' then [] # split_slash cs
      else (case split_slash cs of [] \<Rightarrow> [[c]] | t # ts \<Rightarrow> (c # t) # ts))"

text \<open>\<^verbatim>\<open>Array.shift\<close>: the first element (undefined on an empty array) and the rest.\<close>

definition shift :: "'a list \<Rightarrow> 'a option \<times> 'a list" where
  "shift xs = (case xs of [] \<Rightarrow> (None, []) | x # r \<Rightarrow> (Some x, r))"

subsection \<open>The path resolver\<close>

text \<open>
  The keys the loop of \<^verbatim>\<open>_traverseChannelTree\<close> descends through: it stops at the first
  token that is empty or undefined.
\<close>

fun loop_keys :: "string option \<Rightarrow> string list \<Rightarrow> string list" where
  "loop_keys None channels = []"
| "loop_keys (Some c) channels =
     (if c = [] then []
      else (case channels of
              [] \<Rightarrow> c # loop_keys None []
            | x # r \<Rightarrow> c # loop_keys (Some x) r))"

definition path_keys :: "(string \<Rightarrow> string) \<Rightarrow> string \<Rightarrow> string list" where
  "path_keys u channelPath =
     (let p = toLowerCase u channelPath;
          channels = split_slash p;
          channels1 = (if p \<noteq> [] \<and> hd p = CHR ''/'' then snd (shift channels) else channels)
      in loop_keys (fst (shift channels1)) (snd (shift channels1)))"

text \<open>
  The tree after the loop has walked the keys from a node: a missing child is set to an
  empty node (at the end of the Map), then the walk goes on in the child.
\<close>

fun descend :: "string list \<Rightarrow> node \<Rightarrow> node" where
  "descend [] n = n"
| "descend (k # ks) n =
     (let cs = (if map_of (children n) k = None
                then AList.update k emptyNode (children n) else children n)
      in case map_of cs k of
           None \<Rightarrow> n
         | Some child \<Rightarrow>
             Node (AList.update k (descend ks child) cs) (currentInfo n) (listeners n))"

text \<open>Reading and updating the node that a reference denotes.\<close>

fun node_at :: "node \<Rightarrow> string list \<Rightarrow> node option" where
  "node_at n [] = Some n"
| "node_at n (k # ks) =
     (case map_of (children n) k of None \<Rightarrow> None | Some child \<Rightarrow> node_at child ks)"

fun set_currentInfo :: "string list \<Rightarrow> message option \<Rightarrow> node \<Rightarrow> node" where
  "set_currentInfo [] v n = Node (children n) v (listeners n)"
| "set_currentInfo (k # ks) v n =
     (case map_of (children n) k of
        None \<Rightarrow> n
      | Some child \<Rightarrow>
          Node (AList.update k (set_currentInfo ks v child) (children n))
               (currentInfo n) (listeners n))"

fun set_listeners :: "string list \<Rightarrow> listener list \<Rightarrow> node \<Rightarrow> node" where
  "set_listeners [] ls n = Node (children n) (currentInfo n) ls"
| "set_listeners (k # ks) ls n =
     (case map_of (children n) k of
        None \<Rightarrow> n
      | Some child \<Rightarrow>
          Node (AList.update k (set_listeners ks ls child) (children n))
               (currentInfo n) (listeners n))"

text \<open>
  \<^verbatim>\<open>_traverseChannelTree\<close>: the tree with the missing branches created, and the
  reference of the node at the bottom of the path.
\<close>

definition traverseChannelTree ::
  "(string \<Rightarrow> string) \<Rightarrow> node \<Rightarrow> string \<Rightarrow> node \<times> string list" where
  "traverseChannelTree u rootNode channelPath =
     (descend (path_keys u channelPath) rootNode, path_keys u channelPath)"

text \<open>
  subscribe, unsubscribe, silence, broadcast and stream lower-case the path and pass
  it to the resolver, which lower-cases it again: the keys of the node they work on.
\<close>

abbreviation resolved_keys :: "(string \<Rightarrow> string) \<Rightarrow> string \<Rightarrow> string list" where
  "resolved_keys u channelPath \<equiv> path_keys u (toLowerCase u channelPath)"

subsection \<open>The subtree walker\<close>

text \<open>
  \<^verbatim>\<open>_spreadOnSubtree\<close> applies the action to the node, then to every child in turn. The
  action works on the cache and the listeners of the node it is given (the one action
  the program passes clears the cache).
\<close>

fun spreadOnSubtree ::
  "(message option \<times> listener list \<Rightarrow> message option \<times> listener list) \<Rightarrow> node \<Rightarrow> node" where
  "spreadOnSubtree onNode (Node cs ci ls) =
     Node (map (\<lambda>(k, child). (k, spreadOnSubtree onNode child)) cs)
          (fst (onNode (ci, ls))) (snd (onNode (ci, ls)))"

fun spread_at ::
  "string list \<Rightarrow> (message option \<times> listener list \<Rightarrow> message option \<times> listener list) \<Rightarrow>
   node \<Rightarrow> node" where
  "spread_at [] onNode n = spreadOnSubtree onNode n"
| "spread_at (k # ks) onNode n =
     (case map_of (children n) k of
        None \<Rightarrow> n
      | Some child \<Rightarrow>
          Node (AList.update k (spread_at ks onNode child) (children n))
               (currentInfo n) (listeners n))"

subsection \<open>Arrays of listeners\<close>

text \<open>\<^verbatim>\<open>indexOf\<close> gives the first position of the element, or -1.\<close>

fun indexOf :: "'a list \<Rightarrow> 'a \<Rightarrow> int" where
  "indexOf [] x = -1"
| "indexOf (y # ys) x =
     (if y = x then 0 else (let i = indexOf ys x in if i < 0 then -1 else i + 1))"

text \<open>\<^verbatim>\<open>splice(i, 1)\<close> removes the element at position \<open>i\<close>.\<close>

definition splice1 :: "nat \<Rightarrow> 'a list \<Rightarrow> 'a list" where
  "splice1 i xs = take i xs @ drop (Suc i) xs"

definition array_includes :: "'a list \<Rightarrow> 'a \<Rightarrow> bool" where
  "array_includes xs x = (x \<in> set xs)"

definition listeners_at :: "node \<Rightarrow> string list \<Rightarrow> listener list" where
  "listeners_at r ks = (case node_at r ks of None \<Rightarrow> [] | Some n \<Rightarrow> listeners n)"

definition cache_at :: "node \<Rightarrow> string list \<Rightarrow> message option" where
  "cache_at r ks = (case node_at r ks of None \<Rightarrow> None | Some n \<Rightarrow> currentInfo n)"

subsection \<open>The operations\<close>

definition setTimeout :: "task \<Rightarrow> radio \<Rightarrow> radio" where
  "setTimeout t st = st\<lparr>timers := timers st @ [t]\<rparr>"

text \<open>\<^verbatim>\<open>listeners.forEach(l => setTimeout(() => l(message.payload), 0))\<close>\<close>

fun forEach_deliver :: "listener list \<Rightarrow> jsval \<Rightarrow> radio \<Rightarrow> radio" where
  "forEach_deliver [] v st = st"
| "forEach_deliver (l # ls) v st = forEach_deliver ls v (setTimeout (Deliver l v) st)"

text \<open>
  The first lines of \<^verbatim>\<open>broadcast\<close> and \<^verbatim>\<open>stream\<close>: a string becomes a message for the
  root channel. Of any other value that is not a message, \<^verbatim>\<open>message.channel\<close> is
  undefined or cannot be read, and \<^verbatim>\<open>message.channel.toLowerCase()\<close> throws.
\<close>

definition normalise :: "arg \<Rightarrow> error + message" where
  "normalise a =
     (case a of
        Msg m \<Rightarrow> Inr m
      | Bare (VStr s) \<Rightarrow> Inr \<lparr>channel = ''/'', payload = VStr s\<rparr>
      | Bare _ \<Rightarrow> Inl TypeError)"

definition broadcast :: "(string \<Rightarrow> string) \<Rightarrow> arg \<Rightarrow> radio \<Rightarrow> error + radio" where
  "broadcast u a st =
     (case normalise a of
        Inl e \<Rightarrow> Inl e
      | Inr m \<Rightarrow>
          (let (r, node) = traverseChannelTree u (listenersRoot st) (toLowerCase u (channel m))
           in Inr (forEach_deliver (listeners_at r node) (payload m)
                     (st\<lparr>listenersRoot := r\<rparr>))))"

definition isStreaming :: "(string \<Rightarrow> string) \<Rightarrow> string \<Rightarrow> radio \<Rightarrow> bool \<times> radio" where
  "isStreaming u c st =
     (let (r, node) = traverseChannelTree u (listenersRoot st) c
      in (cache_at r node \<noteq> None, st\<lparr>listenersRoot := r\<rparr>))"

definition unsubscribe :: "(string \<Rightarrow> string) \<Rightarrow> string \<Rightarrow> listener \<Rightarrow> radio \<Rightarrow> radio" where
  "unsubscribe u channelPath handler st =
     (let (r, node) = traverseChannelTree u (listenersRoot st) (toLowerCase u channelPath);
          ls = listeners_at r node;
          listenerIndex = indexOf ls handler
      in if listenerIndex \<ge> 0
         then st\<lparr>listenersRoot := set_listeners node (splice1 (nat listenerIndex) ls) r\<rparr>
         else st\<lparr>listenersRoot := r\<rparr>)"

definition subscribe :: "(string \<Rightarrow> string) \<Rightarrow> string \<Rightarrow> listener \<Rightarrow> radio \<Rightarrow> radio" where
  "subscribe u channelPath handler st =
     (let (r, node) = traverseChannelTree u (listenersRoot st) (toLowerCase u channelPath);
          ls = listeners_at r node;
          r1 = (if \<not> array_includes ls handler then set_listeners node (ls @ [handler]) r else r)
      in setTimeout (Replay node handler) (st\<lparr>listenersRoot := r1\<rparr>))"

definition listenOnce :: "(string \<Rightarrow> string) \<Rightarrow> string \<Rightarrow> listener \<Rightarrow> radio \<Rightarrow> radio" where
  "listenOnce u channelPath handler st =
     (let listener = Once (closures st) (toLowerCase u channelPath) handler
      in subscribe u (toLowerCase u channelPath) listener (st\<lparr>closures := Suc (closures st)\<rparr>))"

definition silence :: "(string \<Rightarrow> string) \<Rightarrow> string \<Rightarrow> radio \<Rightarrow> radio" where
  "silence u channelPath st =
     (let (r, node) = traverseChannelTree u (listenersRoot st) (toLowerCase u channelPath)
      in st\<lparr>listenersRoot := spread_at node (\<lambda>(ci, ls). (None, ls)) r\<rparr>)"

text \<open>\<^verbatim>\<open>silence()\<close>: the parameter takes its default, \<^verbatim>\<open>'/'\<close>.\<close>

definition silence_default :: "(string \<Rightarrow> string) \<Rightarrow> radio \<Rightarrow> radio" where
  "silence_default u st = silence u ''/'' st"

definition stream :: "(string \<Rightarrow> string) \<Rightarrow> arg \<Rightarrow> radio \<Rightarrow> error + radio" where
  "stream u a st =
     (case normalise a of
        Inl e \<Rightarrow> Inl e
      | Inr m \<Rightarrow>
          (let (r, node) = traverseChannelTree u (listenersRoot st) (toLowerCase u (channel m));
               r1 = set_currentInfo node (Some m) r
           in Inr (forEach_deliver (listeners_at r1 node) (payload m)
                     (st\<lparr>listenersRoot := r1\<rparr>))))"

subsection \<open>Running the deferred tasks\<close>

text \<open>
  Calling a listener: a handler of the caller is logged; the closure of \<^verbatim>\<open>listenOnce\<close>
  calls its handler and then unsubscribes itself.
\<close>

fun invoke :: "(string \<Rightarrow> string) \<Rightarrow> listener \<Rightarrow> jsval \<Rightarrow> radio \<Rightarrow> radio" where
  "invoke u (Handler i) v st = st\<lparr>calls := calls st @ [(i, v)]\<rparr>"
| "invoke u (Once k channelPath handler) v st =
     unsubscribe u channelPath (Once k channelPath handler) (invoke u handler v st)"

fun run_task :: "(string \<Rightarrow> string) \<Rightarrow> task \<Rightarrow> radio \<Rightarrow> radio" where
  "run_task u (Deliver l v) st = invoke u l v st"
| "run_task u (Replay node handler) st =
     (case cache_at (listenersRoot st) node of
        None \<Rightarrow> st
      | Some m \<Rightarrow> invoke u handler (payload m) st)"

definition tick :: "(string \<Rightarrow> string) \<Rightarrow> radio \<Rightarrow> radio" where
  "tick u st = (case timers st of [] \<Rightarrow> st | t # ts \<Rightarrow> run_task u t (st\<lparr>timers := ts\<rparr>))"

text \<open>
  Running every pending task, oldest first. A task of the model schedules no task, so
  the tasks to run are the ones pending at the start.
\<close>

definition drain :: "(string \<Rightarrow> string) \<Rightarrow> radio \<Rightarrow> radio" where
  "drain u st = fold (run_task u) (timers st) (st\<lparr>timers := []\<rparr>)"

subsection \<open>The states the program can reach\<close>

text \<open>
  A new radio, and the state after any call of an operation or after a deferred task
  has run. (A caller holds handlers of its own only; the rules allow any listener.)
\<close>

inductive reachable :: "(string \<Rightarrow> string) \<Rightarrow> radio \<Rightarrow> bool" for u where
  reach_new: "reachable u newRadio"
| reach_subscribe: "reachable u st \<Longrightarrow> reachable u (subscribe u p l st)"
| reach_unsubscribe: "reachable u st \<Longrightarrow> reachable u (unsubscribe u p l st)"
| reach_listenOnce: "reachable u st \<Longrightarrow> reachable u (listenOnce u p l st)"
| reach_broadcast: "reachable u st \<Longrightarrow> broadcast u a st = Inr st' \<Longrightarrow> reachable u st'"
| reach_stream: "reachable u st \<Longrightarrow> stream u a st = Inr st' \<Longrightarrow> reachable u st'"
| reach_silence: "reachable u st \<Longrightarrow> reachable u (silence u p st)"
| reach_isStreaming: "reachable u st \<Longrightarrow> reachable u (snd (isStreaming u p st))"
| reach_tick: "reachable u st \<Longrightarrow> reachable u (tick u st)"

section \<open>Lemmas about paths and trees\<close>

lemma loop_keys_takeWhile:
  "loop_keys (fst (shift cs)) (snd (shift cs)) = takeWhile (\<lambda>c. c \<noteq> []) cs"
proof (induction cs)
  case Nil
  show ?case by (simp add: shift_def)
next
  case (Cons c cs)
  then show ?case by (cases cs) (simp_all add: shift_def)
qed

lemma map_of_update:
  "map_of (AList.update k v al) k' = (if k' = k then Some v else map_of al k')"
  by (simp add: AList.update_conv')

lemma node_at_emptyNode: "node_at emptyNode q = (if q = [] then Some emptyNode else None)"
  by (cases q) (simp_all add: emptyNode_def)

lemma cache_at_Nil: "cache_at n [] = currentInfo n"
  by (simp add: cache_at_def)

lemma listeners_at_Nil: "listeners_at n [] = listeners n"
  by (simp add: listeners_at_def)

lemma cache_at_Cons:
  "cache_at n (k # q) = (case map_of (children n) k of None \<Rightarrow> None | Some c \<Rightarrow> cache_at c q)"
  by (simp add: cache_at_def split: option.splits)

lemma listeners_at_Cons:
  "listeners_at n (k # q) = (case map_of (children n) k of None \<Rightarrow> [] | Some c \<Rightarrow> listeners_at c q)"
  by (simp add: listeners_at_def split: option.splits)

lemma cache_at_emptyNode: "cache_at emptyNode q = None"
  by (simp add: cache_at_def node_at_emptyNode) (simp add: emptyNode_def)

lemma listeners_at_emptyNode: "listeners_at emptyNode q = []"
  by (simp add: listeners_at_def node_at_emptyNode) (simp add: emptyNode_def)

lemma cache_at_descend: "cache_at (descend ks n) q = cache_at n q"
proof (induction ks arbitrary: n q)
  case Nil
  show ?case by simp
next
  case (Cons k ks)
  show ?case
  proof (cases q)
    case Nil
    then show ?thesis by (simp add: cache_at_Nil Let_def map_of_update split: option.splits)
  next
    case (Cons k' q')
    then show ?thesis
      using Cons.IH
      by (auto simp add: cache_at_Cons Let_def map_of_update cache_at_emptyNode split: option.splits)
  qed
qed

lemma listeners_at_descend: "listeners_at (descend ks n) q = listeners_at n q"
proof (induction ks arbitrary: n q)
  case Nil
  show ?case by simp
next
  case (Cons k ks)
  show ?case
  proof (cases q)
    case Nil
    then show ?thesis by (simp add: listeners_at_Nil Let_def map_of_update split: option.splits)
  next
    case (Cons k' q')
    then show ?thesis
      using Cons.IH
      by (auto simp add: listeners_at_Cons Let_def map_of_update listeners_at_emptyNode split: option.splits)
  qed
qed

lemma node_at_descend_self: "node_at (descend ks n) ks \<noteq> None"
  by (induction ks arbitrary: n) (auto simp add: Let_def map_of_update split: option.splits)

lemma node_at_descend_mono: "node_at n q \<noteq> None \<Longrightarrow> node_at (descend ks n) q \<noteq> None"
proof (induction ks arbitrary: n q)
  case Nil
  then show ?case by simp
next
  case (Cons k ks)
  then show ?case
    by (cases q) (auto simp add: Let_def map_of_update split: option.splits)
qed

lemma descend_existing: "node_at n ks \<noteq> None \<Longrightarrow> descend ks n = n"
proof (induction ks arbitrary: n)
  case Nil
  show ?case by simp
next
  case (Cons k ks)
  then show ?case
    by (cases n) (auto simp add: Let_def AList.update_triv split: option.splits)
qed

lemma indexOf_bounds: "- 1 \<le> indexOf xs x"
  by (induction xs) (auto simp add: Let_def)

lemma indexOf_neg_iff: "indexOf xs x < 0 \<longleftrightarrow> x \<notin> set xs"
proof (induction xs)
  case Nil
  show ?case by simp
next
  case (Cons y ys)
  then show ?case using indexOf_bounds [of ys x] by (auto simp add: Let_def)
qed

lemma splice1_indexOf: "x \<in> set xs \<Longrightarrow> splice1 (nat (indexOf xs x)) xs = remove1 x xs"
proof (induction xs)
  case Nil
  then show ?case by simp
next
  case (Cons y ys)
  show ?case
  proof (cases "y = x")
    case True
    then show ?thesis by (simp add: splice1_def)
  next
    case False
    with Cons.prems have mem: "x \<in> set ys" by simp
    then have nonneg: "0 \<le> indexOf ys x" using indexOf_neg_iff [of ys x] by simp
    have "nat (indexOf ys x + 1) = Suc (nat (indexOf ys x))" using nonneg by simp
    then show ?thesis using False nonneg Cons.IH [OF mem]
      by (simp add: splice1_def Let_def)
  qed
qed

lemma cache_at_set_listeners: "cache_at (set_listeners ks ls n) q = cache_at n q"
proof (induction ks arbitrary: n q)
  case Nil
  show ?case by (cases q) (simp_all add: cache_at_Nil cache_at_Cons)
next
  case (Cons k ks)
  show ?case
  proof (cases q)
    case Nil
    then show ?thesis by (simp add: cache_at_Nil split: option.splits)
  next
    case (Cons k' q')
    then show ?thesis using Cons.IH
      by (auto simp add: cache_at_Cons map_of_update split: option.splits)
  qed
qed

lemma listeners_at_set_listeners:
  "node_at n ks \<noteq> None \<Longrightarrow>
   listeners_at (set_listeners ks ls n) q = (if q = ks then ls else listeners_at n q)"
proof (induction ks arbitrary: n q)
  case Nil
  show ?case by (cases q) (simp_all add: listeners_at_Nil listeners_at_Cons)
next
  case (Cons k ks)
  show ?case
  proof (cases q)
    case Nil
    then show ?thesis by (simp add: listeners_at_Nil split: option.splits)
  next
    case (Cons k' q')
    then show ?thesis using Cons.IH Cons.prems
      by (auto simp add: listeners_at_Cons map_of_update split: option.splits)
  qed
qed

lemma node_at_set_listeners_iff:
  "node_at (set_listeners ks ls n) q \<noteq> None \<longleftrightarrow> node_at n q \<noteq> None"
proof (induction ks arbitrary: n q)
  case Nil
  show ?case by (cases q) simp_all
next
  case (Cons k ks)
  show ?case
  proof (cases q)
    case Nil
    then show ?thesis by simp
  next
    case (Cons k' q')
    then show ?thesis using Cons.IH
      by (auto simp add: map_of_update split: option.splits)
  qed
qed

lemma listeners_at_set_currentInfo: "listeners_at (set_currentInfo ks v n) q = listeners_at n q"
proof (induction ks arbitrary: n q)
  case Nil
  show ?case by (cases q) (simp_all add: listeners_at_Nil listeners_at_Cons)
next
  case (Cons k ks)
  show ?case
  proof (cases q)
    case Nil
    then show ?thesis by (simp add: listeners_at_Nil split: option.splits)
  next
    case (Cons k' q')
    then show ?thesis using Cons.IH
      by (auto simp add: listeners_at_Cons map_of_update split: option.splits)
  qed
qed

lemma cache_at_set_currentInfo:
  "node_at n ks \<noteq> None \<Longrightarrow>
   cache_at (set_currentInfo ks v n) q = (if q = ks then v else cache_at n q)"
proof (induction ks arbitrary: n q)
  case Nil
  show ?case by (cases q) (simp_all add: cache_at_Nil cache_at_Cons)
next
  case (Cons k ks)
  show ?case
  proof (cases q)
    case Nil
    then show ?thesis by (simp add: cache_at_Nil split: option.splits)
  next
    case (Cons k' q')
    then show ?thesis using Cons.IH Cons.prems
      by (auto simp add: cache_at_Cons map_of_update split: option.splits)
  qed
qed

lemma node_at_set_currentInfo_iff:
  "node_at (set_currentInfo ks v n) q \<noteq> None \<longleftrightarrow> node_at n q \<noteq> None"
proof (induction ks arbitrary: n q)
  case Nil
  show ?case by (cases q) simp_all
next
  case (Cons k ks)
  show ?case
  proof (cases q)
    case Nil
    then show ?thesis by simp
  next
    case (Cons k' q')
    then show ?thesis using Cons.IH
      by (auto simp add: map_of_update split: option.splits)
  qed
qed

lemma map_of_spread_children:
  "map_of (map (\<lambda>(k, child). (k, spreadOnSubtree f child)) cs) k =
   map_option (spreadOnSubtree f) (map_of cs k)"
  by (simp add: map_of_map)

lemma listeners_at_spreadOnSubtree:
  "listeners_at (spreadOnSubtree (\<lambda>(ci, ls). (None, ls)) n) q = listeners_at n q"
proof (induction q arbitrary: n)
  case Nil
  show ?case by (cases n) (simp add: listeners_at_Nil)
next
  case (Cons k q)
  show ?case using Cons.IH
    by (cases n) (simp add: listeners_at_Cons map_of_spread_children split: option.splits)
qed

lemma cache_at_spreadOnSubtree:
  "cache_at (spreadOnSubtree (\<lambda>(ci, ls). (None, ls)) n) q = None"
proof (induction q arbitrary: n)
  case Nil
  show ?case by (cases n) (simp add: cache_at_Nil)
next
  case (Cons k q)
  show ?case using Cons.IH
    by (cases n) (simp add: cache_at_Cons map_of_spread_children split: option.splits)
qed

lemma node_at_spreadOnSubtree_iff:
  "node_at (spreadOnSubtree f n) q \<noteq> None \<longleftrightarrow> node_at n q \<noteq> None"
proof (induction q arbitrary: n)
  case Nil
  show ?case by simp
next
  case (Cons k q)
  show ?case using Cons.IH
    by (cases n) (simp add: map_of_spread_children split: option.splits)
qed

lemma listeners_at_spread_at:
  "listeners_at (spread_at ks (\<lambda>(ci, ls). (None, ls)) n) q = listeners_at n q"
proof (induction ks arbitrary: n q)
  case Nil
  show ?case by (simp add: listeners_at_spreadOnSubtree)
next
  case (Cons k ks)
  show ?case
  proof (cases q)
    case Nil
    then show ?thesis by (simp add: listeners_at_Nil split: option.splits)
  next
    case (Cons k' q')
    then show ?thesis using Cons.IH
      by (auto simp add: listeners_at_Cons map_of_update split: option.splits)
  qed
qed

lemma cache_at_spread_at:
  "cache_at (spread_at ks (\<lambda>(ci, ls). (None, ls)) n) q =
     (if prefix ks q then None else cache_at n q)"
proof (induction ks arbitrary: n q)
  case Nil
  show ?case by (simp add: cache_at_spreadOnSubtree)
next
  case (Cons k ks)
  show ?case
  proof (cases q)
    case Nil
    then show ?thesis by (simp add: cache_at_Nil split: option.splits)
  next
    case (Cons k' q')
    then show ?thesis using Cons.IH
      by (auto simp add: cache_at_Cons map_of_update split: option.splits)
  qed
qed

lemma node_at_spread_at_iff:
  "node_at (spread_at ks f n) q \<noteq> None \<longleftrightarrow> node_at n q \<noteq> None"
proof (induction ks arbitrary: n q)
  case Nil
  show ?case using node_at_spreadOnSubtree_iff [of f n q] by simp
next
  case (Cons k ks)
  show ?case
  proof (cases q)
    case Nil
    then show ?thesis by simp
  next
    case (Cons k' q')
    then show ?thesis using Cons.IH
      by (auto simp add: map_of_update split: option.splits)
  qed
qed

section \<open>The effect of each operation\<close>

lemma unsubscribe_fields:
  "timers (unsubscribe u p h st) = timers st"
  "calls (unsubscribe u p h st) = calls st"
  "closures (unsubscribe u p h st) = closures st"
  by (simp_all add: unsubscribe_def traverseChannelTree_def Let_def)

lemma unsubscribe_cache:
  "cache_at (listenersRoot (unsubscribe u p h st)) q = cache_at (listenersRoot st) q"
  by (simp add: unsubscribe_def traverseChannelTree_def Let_def
      cache_at_set_listeners cache_at_descend)

lemma unsubscribe_listeners:
  "listeners_at (listenersRoot (unsubscribe u p h st)) q =
     (if q = resolved_keys u p then remove1 h (listeners_at (listenersRoot st) q)
      else listeners_at (listenersRoot st) q)"
proof (cases "h \<in> set (listeners_at (listenersRoot st) (resolved_keys u p))")
  case True
  then have "0 \<le> indexOf (listeners_at (listenersRoot st) (resolved_keys u p)) h"
    using indexOf_neg_iff [of "listeners_at (listenersRoot st) (resolved_keys u p)" h] by simp
  then show ?thesis using True
    by (simp add: unsubscribe_def traverseChannelTree_def Let_def
        listeners_at_descend listeners_at_set_listeners node_at_descend_self splice1_indexOf)
next
  case False
  then have "\<not> 0 \<le> indexOf (listeners_at (listenersRoot st) (resolved_keys u p)) h"
    using indexOf_neg_iff [of "listeners_at (listenersRoot st) (resolved_keys u p)" h] by simp
  then show ?thesis using False
    by (simp add: unsubscribe_def traverseChannelTree_def Let_def
        listeners_at_descend remove1_idem)
qed

lemma subscribe_fields:
  "timers (subscribe u p h st) = timers st @ [Replay (resolved_keys u p) h]"
  "calls (subscribe u p h st) = calls st"
  "closures (subscribe u p h st) = closures st"
  by (simp_all add: subscribe_def traverseChannelTree_def Let_def setTimeout_def)

lemma subscribe_cache:
  "cache_at (listenersRoot (subscribe u p h st)) q = cache_at (listenersRoot st) q"
  by (simp add: subscribe_def traverseChannelTree_def Let_def setTimeout_def
      cache_at_set_listeners cache_at_descend)

lemma subscribe_listeners:
  "listeners_at (listenersRoot (subscribe u p h st)) q =
     (if q = resolved_keys u p \<and> h \<notin> set (listeners_at (listenersRoot st) q)
      then listeners_at (listenersRoot st) q @ [h]
      else listeners_at (listenersRoot st) q)"
  by (simp add: subscribe_def traverseChannelTree_def Let_def setTimeout_def
      array_includes_def listeners_at_descend listeners_at_set_listeners node_at_descend_self)

lemma listenOnce_fields:
  "timers (listenOnce u p h st) =
     timers st @ [Replay (resolved_keys u (toLowerCase u p)) (Once (closures st) (toLowerCase u p) h)]"
  "calls (listenOnce u p h st) = calls st"
  "closures (listenOnce u p h st) = Suc (closures st)"
  by (simp_all add: listenOnce_def Let_def subscribe_fields)

lemma listenOnce_cache:
  "cache_at (listenersRoot (listenOnce u p h st)) q = cache_at (listenersRoot st) q"
  by (simp add: listenOnce_def Let_def subscribe_cache)

lemma listenOnce_listeners:
  "listeners_at (listenersRoot (listenOnce u p h st)) q =
     (if q = resolved_keys u (toLowerCase u p) \<and>
         Once (closures st) (toLowerCase u p) h \<notin> set (listeners_at (listenersRoot st) q)
      then listeners_at (listenersRoot st) q @ [Once (closures st) (toLowerCase u p) h]
      else listeners_at (listenersRoot st) q)"
  by (auto simp add: listenOnce_def Let_def subscribe_listeners)

lemma forEach_deliver_eq:
  "forEach_deliver ls v st = st\<lparr>timers := timers st @ map (\<lambda>l. Deliver l v) ls\<rparr>"
  by (induction ls arbitrary: st) (simp_all add: setTimeout_def)

lemma broadcast_Msg:
  "broadcast u (Msg m) st =
     Inr (st\<lparr>listenersRoot := descend (resolved_keys u (channel m)) (listenersRoot st),
            timers := timers st @
              map (\<lambda>l. Deliver l (payload m))
                (listeners_at (listenersRoot st) (resolved_keys u (channel m)))\<rparr>)"
  by (simp add: broadcast_def normalise_def traverseChannelTree_def Let_def
      forEach_deliver_eq listeners_at_descend)

lemma stream_Msg:
  "stream u (Msg m) st =
     Inr (st\<lparr>listenersRoot :=
              set_currentInfo (resolved_keys u (channel m)) (Some m)
                (descend (resolved_keys u (channel m)) (listenersRoot st)),
            timers := timers st @
              map (\<lambda>l. Deliver l (payload m))
                (listeners_at (listenersRoot st) (resolved_keys u (channel m)))\<rparr>)"
  by (simp add: stream_def normalise_def traverseChannelTree_def Let_def
      forEach_deliver_eq listeners_at_descend listeners_at_set_currentInfo)

lemma silence_fields:
  "timers (silence u p st) = timers st"
  "calls (silence u p st) = calls st"
  "closures (silence u p st) = closures st"
  by (simp_all add: silence_def traverseChannelTree_def Let_def)

lemma silence_cache:
  "cache_at (listenersRoot (silence u p st)) q =
     (if prefix (resolved_keys u p) q then None else cache_at (listenersRoot st) q)"
  by (simp add: silence_def traverseChannelTree_def Let_def
      cache_at_spread_at cache_at_descend)

lemma silence_listeners:
  "listeners_at (listenersRoot (silence u p st)) q = listeners_at (listenersRoot st) q"
  by (simp add: silence_def traverseChannelTree_def Let_def
      listeners_at_spread_at listeners_at_descend)

lemma isStreaming_eq:
  "isStreaming u c st =
     (cache_at (listenersRoot st) (path_keys u c) \<noteq> None,
      st\<lparr>listenersRoot := descend (path_keys u c) (listenersRoot st)\<rparr>)"
  by (simp add: isStreaming_def traverseChannelTree_def Let_def cache_at_descend)

lemma invoke_fields:
  "timers (invoke u l v st) = timers st"
  "closures (invoke u l v st) = closures st"
  by (induction l arbitrary: st) (simp_all add: unsubscribe_fields)

lemma invoke_cache:
  "cache_at (listenersRoot (invoke u l v st)) q = cache_at (listenersRoot st) q"
  by (induction l arbitrary: st) (simp_all add: unsubscribe_cache)

lemma invoke_calls_prefix: "prefix (calls st) (calls (invoke u l v st))"
proof (induction l arbitrary: st)
  case (Handler i)
  show ?case by simp
next
  case (Once k p h)
  then show ?case by (simp add: unsubscribe_fields)
qed

lemma run_task_fields:
  "timers (run_task u t st) = timers st"
  "closures (run_task u t st) = closures st"
  by (cases t; simp add: invoke_fields split: option.splits)+

lemma run_task_cache:
  "cache_at (listenersRoot (run_task u t st)) q = cache_at (listenersRoot st) q"
  by (cases t) (simp_all add: invoke_cache split: option.splits)

lemma run_task_calls_prefix: "prefix (calls st) (calls (run_task u t st))"
  by (cases t) (simp_all add: invoke_calls_prefix split: option.splits)

lemma fold_run_task_timers: "timers (fold (run_task u) ts st) = timers st"
  by (induction ts arbitrary: st) (simp_all add: run_task_fields)

lemma fold_run_task_cache:
  "cache_at (listenersRoot (fold (run_task u) ts st)) q = cache_at (listenersRoot st) q"
  by (induction ts arbitrary: st) (simp_all add: run_task_cache)

lemma fold_run_task_calls_prefix: "prefix (calls st) (calls (fold (run_task u) ts st))"
proof (induction ts arbitrary: st)
  case Nil
  show ?case by simp
next
  case (Cons t ts)
  have "prefix (calls st) (calls (run_task u t st))" by (rule run_task_calls_prefix)
  also have "prefix (calls (run_task u t st)) (calls (fold (run_task u) ts (run_task u t st)))"
    by (rule Cons.IH)
  finally show ?case by simp
qed

lemma drain_Nil: "timers st = [] \<Longrightarrow> drain u st = st"
  by (simp add: drain_def)

lemma unsubscribe_timers_update:
  "unsubscribe u p h (st\<lparr>timers := x\<rparr>) = (unsubscribe u p h st)\<lparr>timers := x\<rparr>"
  by (simp add: unsubscribe_def traverseChannelTree_def Let_def)

lemma invoke_timers_update:
  "invoke u l v (st\<lparr>timers := x\<rparr>) = (invoke u l v st)\<lparr>timers := x\<rparr>"
  by (induction l arbitrary: st) (simp_all add: unsubscribe_timers_update)

lemma run_task_timers_update:
  "run_task u t (st\<lparr>timers := x\<rparr>) = (run_task u t st)\<lparr>timers := x\<rparr>"
  by (cases t) (simp_all add: invoke_timers_update split: option.splits)

lemma drain_tick: "drain u (tick u st) = drain u st"
  by (cases "timers st")
    (simp_all add: drain_def tick_def run_task_fields run_task_timers_update)

lemma timers_drain: "timers (drain u st) = []"
  by (simp add: drain_def fold_run_task_timers)

lemma tick_cache: "cache_at (listenersRoot (tick u st)) q = cache_at (listenersRoot st) q"
  by (cases "timers st") (simp_all add: tick_def run_task_cache)

lemma toLowerCase_root: "toLowerCase u ''/'' = ''/''"
  by (simp add: toLowerCase_def isAscii_def lowerChar_def)

lemma path_keys_root: "path_keys u ''/'' = []"
  by (simp add: path_keys_def toLowerCase_root shift_def)

lemma resolved_keys_root: "resolved_keys u ''/'' = []"
  by (simp add: toLowerCase_root path_keys_root)

lemma count_list_prefix_le: "prefix xs ys \<Longrightarrow> count_list xs a \<le> count_list ys a"
  by (auto simp add: prefix_def)

lemma fold_run_task_count_le:
  "count_list (calls st) c \<le> count_list (calls (fold (run_task u) ts st)) c"
  using fold_run_task_calls_prefix by (rule count_list_prefix_le)

lemma node_at_descend_iff:
  "node_at (descend ks n) q \<noteq> None \<longleftrightarrow> node_at n q \<noteq> None \<or> prefix q ks"
proof (induction ks arbitrary: n q)
  case Nil
  show ?case by (cases q) simp_all
next
  case (Cons k ks)
  show ?case
  proof (cases q)
    case Nil
    then show ?thesis by simp
  next
    case (Cons k' q')
    then show ?thesis
      using Cons.IH
      by (auto simp add: Let_def map_of_update node_at_emptyNode split: option.splits)
  qed
qed

lemma replay_in_drain_count:
  assumes "timers s = ts @ Replay ks (Handler h) # ts'"
    and "cache_at (listenersRoot s) ks = Some m"
  shows "count_list (calls s) (h, payload m) + 1 \<le> count_list (calls (drain u s)) (h, payload m)"
proof -
  let ?a = "fold (run_task u) ts (s\<lparr>timers := []\<rparr>)"
  let ?b = "run_task u (Replay ks (Handler h)) ?a"
  have "cache_at (listenersRoot ?a) ks = Some m"
    using assms(2) by (simp add: fold_run_task_cache)
  then have b: "calls ?b = calls ?a @ [(h, payload m)]"
    by simp
  have "count_list (calls (s\<lparr>timers := []\<rparr>)) (h, payload m) \<le> count_list (calls ?a) (h, payload m)"
    by (rule fold_run_task_count_le)
  then have a: "count_list (calls s) (h, payload m) + 1 \<le> count_list (calls ?b) (h, payload m)"
    using b by simp
  have "drain u s = fold (run_task u) ts' ?b"
    by (simp add: drain_def assms(1))
  then have "count_list (calls ?b) (h, payload m) \<le> count_list (calls (drain u s)) (h, payload m)"
    by (simp add: fold_run_task_count_le)
  then show ?thesis using a by simp
qed

section \<open>The claims\<close>

text \<open>
  C5. No listener is called during a call of subscribe, broadcast or stream: the log of
  handler calls is the same after the call as before it, and the call only adds tasks
  at the end of the queue of deferred tasks (the replay check of subscribe, one delivery
  for each listener of broadcast and stream).
\<close>

theorem C5_no_synchronous_call:
  "calls (subscribe u p h st) = calls st \<and>
   timers (subscribe u p h st) = timers st @ [Replay (resolved_keys u p) h] \<and>
   (\<forall>st'. broadcast u a st = Inr st' \<longrightarrow>
      calls st' = calls st \<and> (\<exists>ts. timers st' = timers st @ ts)) \<and>
   (\<forall>st'. stream u a st = Inr st' \<longrightarrow>
      calls st' = calls st \<and> (\<exists>ts. timers st' = timers st @ ts))"
proof -
  have b: "calls st' = calls st \<and> (\<exists>ts. timers st' = timers st @ ts)"
    if "broadcast u a st = Inr st'" for st'
    using that
    by (auto simp add: broadcast_def traverseChannelTree_def Let_def forEach_deliver_eq
        split: sum.splits)
  have s: "calls st' = calls st \<and> (\<exists>ts. timers st' = timers st @ ts)"
    if "stream u a st = Inr st'" for st'
    using that
    by (auto simp add: stream_def traverseChannelTree_def Let_def forEach_deliver_eq
        split: sum.splits)
  show ?thesis using b s by (simp add: subscribe_fields)
qed

theorem C5_no_synchronous_call_witness:
  "\<exists>st'. stream id (Bare (VStr ''hello'')) (subscribe id ''/'' (Handler 0) newRadio) = Inr st' \<and>
     calls st' = [] \<and>
     timers st' = [Replay [] (Handler 0), Deliver (Handler 0) (VStr ''hello'')]"
proof -
  let ?s = "subscribe id ''/'' (Handler 0) newRadio"
  let ?s' = "\<lparr>listenersRoot = Node [] (Some \<lparr>channel = ''/'', payload = VStr ''hello''\<rparr>) [Handler 0],
               timers = [Replay [] (Handler 0), Deliver (Handler 0) (VStr ''hello'')],
               calls = [], closures = 0\<rparr>"
  have run: "stream id (Bare (VStr ''hello'')) ?s = Inr ?s'"
    by code_simp
  have "calls ?s' = calls ?s"
    using C5_no_synchronous_call
            [where u = id and p = "''/''" and h = "Handler 0" and st = ?s
               and a = "Bare (VStr ''hello'')"] run
    by blast
  then show ?thesis using run by simp
qed

text \<open>
  C7. A broadcast leaves the cached message of every node as it was (a node that the
  call creates has none), so isStreaming answers after it as it did before; the same
  holds for subscribe, unsubscribe, listenOnce, isStreaming and for running a deferred
  task: only stream sets a cache and only silence clears one.
\<close>

theorem C7_broadcast_keeps_cache:
  "(\<forall>st'. broadcast u a st = Inr st' \<longrightarrow>
      (\<forall>q. cache_at (listenersRoot st') q = cache_at (listenersRoot st) q) \<and>
      (\<forall>x. fst (isStreaming u x st') = fst (isStreaming u x st))) \<and>
   (\<forall>q. cache_at (listenersRoot (subscribe u p h st)) q = cache_at (listenersRoot st) q) \<and>
   (\<forall>q. cache_at (listenersRoot (unsubscribe u p h st)) q = cache_at (listenersRoot st) q) \<and>
   (\<forall>q. cache_at (listenersRoot (listenOnce u p h st)) q = cache_at (listenersRoot st) q) \<and>
   (\<forall>q. cache_at (listenersRoot (snd (isStreaming u p st))) q = cache_at (listenersRoot st) q) \<and>
   (\<forall>q. cache_at (listenersRoot (tick u st)) q = cache_at (listenersRoot st) q)"
proof -
  have b: "cache_at (listenersRoot st') q = cache_at (listenersRoot st) q"
    if "broadcast u a st = Inr st'" for st' q
    using that
    by (auto simp add: broadcast_def traverseChannelTree_def Let_def forEach_deliver_eq
        cache_at_descend split: sum.splits)
  have i: "cache_at (listenersRoot (snd (isStreaming u p st))) q = cache_at (listenersRoot st) q"
    for q
    by (simp add: isStreaming_eq cache_at_descend)
  show ?thesis
    using b i by (simp add: isStreaming_eq subscribe_cache unsubscribe_cache listenOnce_cache tick_cache)
qed

theorem C7_broadcast_keeps_cache_witness:
  "\<exists>st'. broadcast id (Msg \<lparr>channel = ''x'', payload = VNum 1\<rparr>) newRadio = Inr st' \<and>
     cache_at (listenersRoot st') [''x''] = None \<and>
     fst (isStreaming id ''x'' st') = False"
proof -
  let ?s' = "\<lparr>listenersRoot = Node [(''x'', Node [] None [])] None [],
               timers = [], calls = [], closures = 0\<rparr>"
  have run: "broadcast id (Msg \<lparr>channel = ''x'', payload = VNum 1\<rparr>) newRadio = Inr ?s'"
    by code_simp
  have before: "cache_at (listenersRoot newRadio) [''x''] = None"
    by code_simp
  have before': "fst (isStreaming id ''x'' newRadio) = False"
    by code_simp
  have "cache_at (listenersRoot ?s') [''x''] = cache_at (listenersRoot newRadio) [''x''] \<and>
        fst (isStreaming id ''x'' ?s') = fst (isStreaming id ''x'' newRadio)"
    using C7_broadcast_keeps_cache
      [where u = id and a = "Msg \<lparr>channel = ''x'', payload = VNum 1\<rparr>" and st = newRadio] run
    by blast
  then show ?thesis using run before before' by simp
qed

text \<open>
  C4 (as amended). For every bare string s, broadcast(s) and stream(s) do what
  broadcast and stream of the message with channel "/" and payload s do: the call does
  not fail, the tree gets no new node, and the payload goes to the listeners of the
  root (stream also caches the message at the root). A bare value that is not a string
  makes the call throw (see the counterexample).
\<close>

theorem C4_bare_string_is_root_message:
  "broadcast u (Bare (VStr s)) st = broadcast u (Msg \<lparr>channel = ''/'', payload = VStr s\<rparr>) st \<and>
   stream u (Bare (VStr s)) st = stream u (Msg \<lparr>channel = ''/'', payload = VStr s\<rparr>) st \<and>
   broadcast u (Bare (VStr s)) st =
     Inr (st\<lparr>timers := timers st @
            map (\<lambda>l. Deliver l (VStr s)) (listeners (listenersRoot st))\<rparr>) \<and>
   stream u (Bare (VStr s)) st =
     Inr (st\<lparr>listenersRoot :=
              Node (children (listenersRoot st))
                   (Some \<lparr>channel = ''/'', payload = VStr s\<rparr>)
                   (listeners (listenersRoot st)),
            timers := timers st @
              map (\<lambda>l. Deliver l (VStr s)) (listeners (listenersRoot st))\<rparr>)"
proof -
  have n: "normalise (Bare (VStr s)) = normalise (Msg \<lparr>channel = ''/'', payload = VStr s\<rparr>)"
    by (simp add: normalise_def)
  have b: "broadcast u (Bare (VStr s)) st = broadcast u (Msg \<lparr>channel = ''/'', payload = VStr s\<rparr>) st"
    by (simp add: broadcast_def n)
  have s: "stream u (Bare (VStr s)) st = stream u (Msg \<lparr>channel = ''/'', payload = VStr s\<rparr>) st"
    by (simp add: stream_def n)
  have b': "broadcast u (Msg \<lparr>channel = ''/'', payload = VStr s\<rparr>) st =
     Inr (st\<lparr>timers := timers st @
            map (\<lambda>l. Deliver l (VStr s)) (listeners (listenersRoot st))\<rparr>)"
    by (simp add: broadcast_Msg resolved_keys_root listeners_at_Nil)
  have s': "stream u (Msg \<lparr>channel = ''/'', payload = VStr s\<rparr>) st =
     Inr (st\<lparr>listenersRoot :=
              Node (children (listenersRoot st))
                   (Some \<lparr>channel = ''/'', payload = VStr s\<rparr>)
                   (listeners (listenersRoot st)),
            timers := timers st @
              map (\<lambda>l. Deliver l (VStr s)) (listeners (listenersRoot st))\<rparr>)"
    by (simp add: stream_Msg resolved_keys_root listeners_at_Nil)
  show ?thesis using b s b' s' by simp
qed

theorem C4_bare_number_counterexample:
  "broadcast id (Bare (VNum 42)) newRadio = Inl TypeError \<and>
   broadcast id (Msg \<lparr>channel = ''/'', payload = VNum 42\<rparr>) newRadio = Inr newRadio \<and>
   stream id (Bare (VNum 42)) newRadio = Inl TypeError \<and>
   stream id (Msg \<lparr>channel = ''/'', payload = VNum 42\<rparr>) newRadio =
     Inr (newRadio\<lparr>listenersRoot := Node [] (Some \<lparr>channel = ''/'', payload = VNum 42\<rparr>) []\<rparr>)"
  by code_simp

text \<open>
  C2 (as amended). isStreaming(p) answers true exactly when the node that p denotes
  has a cached message. It calls no handler, schedules nothing, and changes no cache
  and no listener list; every node of the tree stays where it is. It is not free of
  effects: the resolver creates the nodes of p that are missing (empty ones, and no
  other node), so afterwards the node of p exists, and the tree is left as it was
  exactly when that node existed before the call.
\<close>

theorem C2_isStreaming_query:
  "fst (isStreaming u p st) = (cache_at (listenersRoot st) (path_keys u p) \<noteq> None) \<and>
   fst (isStreaming u p st) =
     (cache_at (listenersRoot (snd (isStreaming u p st))) (path_keys u p) \<noteq> None) \<and>
   node_at (listenersRoot (snd (isStreaming u p st))) (path_keys u p) \<noteq> None \<and>
   (\<forall>q. (node_at (listenersRoot (snd (isStreaming u p st))) q \<noteq> None) =
          (node_at (listenersRoot st) q \<noteq> None \<or> prefix q (path_keys u p))) \<and>
   (\<forall>q. cache_at (listenersRoot (snd (isStreaming u p st))) q = cache_at (listenersRoot st) q) \<and>
   (\<forall>q. listeners_at (listenersRoot (snd (isStreaming u p st))) q =
          listeners_at (listenersRoot st) q) \<and>
   timers (snd (isStreaming u p st)) = timers st \<and>
   calls (snd (isStreaming u p st)) = calls st \<and>
   closures (snd (isStreaming u p st)) = closures st \<and>
   (node_at (listenersRoot st) (path_keys u p) \<noteq> None \<longrightarrow> snd (isStreaming u p st) = st) \<and>
   (node_at (listenersRoot st) (path_keys u p) = None \<longrightarrow> snd (isStreaming u p st) \<noteq> st)"
proof -
  have r: "snd (isStreaming u p st) = st\<lparr>listenersRoot := descend (path_keys u p) (listenersRoot st)\<rparr>"
    by (simp add: isStreaming_eq)
  have x: "node_at (listenersRoot (snd (isStreaming u p st))) (path_keys u p) \<noteq> None"
    using node_at_descend_self [of "path_keys u p" "listenersRoot st"] by (simp add: r)
  have m: "(node_at (listenersRoot (snd (isStreaming u p st))) q \<noteq> None) =
           (node_at (listenersRoot st) q \<noteq> None \<or> prefix q (path_keys u p))" for q
    using node_at_descend_iff [of "path_keys u p" "listenersRoot st" q] by (simp add: r)
  have e: "snd (isStreaming u p st) = st" if "node_at (listenersRoot st) (path_keys u p) \<noteq> None"
    using descend_existing [OF that] by (simp add: r)
  have n: "snd (isStreaming u p st) \<noteq> st" if "node_at (listenersRoot st) (path_keys u p) = None"
    using that x by auto
  have f: "fst (isStreaming u p st) = (cache_at (listenersRoot st) (path_keys u p) \<noteq> None)"
    by (simp add: isStreaming_eq)
  have c: "cache_at (listenersRoot (snd (isStreaming u p st))) q = cache_at (listenersRoot st) q" for q
    by (simp add: r cache_at_descend)
  have l: "listeners_at (listenersRoot (snd (isStreaming u p st))) q =
           listeners_at (listenersRoot st) q" for q
    by (simp add: r listeners_at_descend)
  have t: "timers (snd (isStreaming u p st)) = timers st \<and>
           calls (snd (isStreaming u p st)) = calls st \<and>
           closures (snd (isStreaming u p st)) = closures st"
    by (simp add: r)
  show ?thesis using x m e n f c l t by (intro conjI allI impI) simp_all
qed

theorem C2_isStreaming_query_witness:
  "node_at (listenersRoot
      \<lparr>listenersRoot =
         Node [(''a'', Node [(''b'', Node [] (Some \<lparr>channel = ''a/b'', payload = VNum 1\<rparr>)
                                      [Handler 0])] None [])] None [],
       timers = [], calls = [], closures = 0\<rparr>) (path_keys id ''A/b'') \<noteq> None \<and>
   isStreaming id ''A/b''
      \<lparr>listenersRoot =
         Node [(''a'', Node [(''b'', Node [] (Some \<lparr>channel = ''a/b'', payload = VNum 1\<rparr>)
                                      [Handler 0])] None [])] None [],
       timers = [], calls = [], closures = 0\<rparr> =
     (True,
      \<lparr>listenersRoot =
         Node [(''a'', Node [(''b'', Node [] (Some \<lparr>channel = ''a/b'', payload = VNum 1\<rparr>)
                                      [Handler 0])] None [])] None [],
       timers = [], calls = [], closures = 0\<rparr>) \<and>
   node_at (listenersRoot
      \<lparr>listenersRoot =
         Node [(''a'', Node [(''b'', Node [] (Some \<lparr>channel = ''a/b'', payload = VNum 1\<rparr>)
                                      [Handler 0])] None [])] None [],
       timers = [], calls = [], closures = 0\<rparr>) (path_keys id ''a/c'') = None \<and>
   fst (isStreaming id ''a/c''
      \<lparr>listenersRoot =
         Node [(''a'', Node [(''b'', Node [] (Some \<lparr>channel = ''a/b'', payload = VNum 1\<rparr>)
                                      [Handler 0])] None [])] None [],
       timers = [], calls = [], closures = 0\<rparr>) = False \<and>
   snd (isStreaming id ''a/c''
      \<lparr>listenersRoot =
         Node [(''a'', Node [(''b'', Node [] (Some \<lparr>channel = ''a/b'', payload = VNum 1\<rparr>)
                                      [Handler 0])] None [])] None [],
       timers = [], calls = [], closures = 0\<rparr>) \<noteq>
      \<lparr>listenersRoot =
         Node [(''a'', Node [(''b'', Node [] (Some \<lparr>channel = ''a/b'', payload = VNum 1\<rparr>)
                                      [Handler 0])] None [])] None [],
       timers = [], calls = [], closures = 0\<rparr> \<and>
   node_at (listenersRoot (snd (isStreaming id ''a/c''
      \<lparr>listenersRoot =
         Node [(''a'', Node [(''b'', Node [] (Some \<lparr>channel = ''a/b'', payload = VNum 1\<rparr>)
                                      [Handler 0])] None [])] None [],
       timers = [], calls = [], closures = 0\<rparr>))) (path_keys id ''a/c'') \<noteq> None"
proof -
  let ?S = "\<lparr>listenersRoot =
         Node [(''a'', Node [(''b'', Node [] (Some \<lparr>channel = ''a/b'', payload = VNum 1\<rparr>)
                                      [Handler 0])] None [])] None [],
       timers = [], calls = [], closures = 0\<rparr>"
  have ex: "node_at (listenersRoot ?S) (path_keys id ''A/b'') \<noteq> None"
    by code_simp
  have c: "cache_at (listenersRoot ?S) (path_keys id ''A/b'') \<noteq> None"
    by code_simp
  have mi: "node_at (listenersRoot ?S) (path_keys id ''a/c'') = None"
    by code_simp
  have c': "cache_at (listenersRoot ?S) (path_keys id ''a/c'') = None"
    by code_simp
  note t1 = C2_isStreaming_query [where u = id and p = "''A/b''" and st = ?S]
  note t2 = C2_isStreaming_query [where u = id and p = "''a/c''" and st = ?S]
  have "fst (isStreaming id ''A/b'' ?S) = True" using t1 c by blast
  moreover have "snd (isStreaming id ''A/b'' ?S) = ?S" using t1 ex by blast
  ultimately have a: "isStreaming id ''A/b'' ?S = (True, ?S)"
    by (simp add: prod_eq_iff)
  have b1: "fst (isStreaming id ''a/c'' ?S) = False" using t2 c' by blast
  have b2: "snd (isStreaming id ''a/c'' ?S) \<noteq> ?S" using t2 mi by blast
  have b3: "node_at (listenersRoot (snd (isStreaming id ''a/c'' ?S))) (path_keys id ''a/c'') \<noteq> None"
    using t2 by blast
  show ?thesis using ex a mi b1 b2 b3 by blast
qed

theorem C2_isStreaming_creates_node_counterexample:
  "snd (isStreaming id ''x'' newRadio) \<noteq> newRadio \<and>
   listenersRoot newRadio = Node [] None [] \<and>
   listenersRoot (snd (isStreaming id ''x'' newRadio)) = Node [(''x'', Node [] None [])] None []"
  by code_simp

text \<open>
  C6. silence(p) clears the cache of the node of p and of every node below it, and of
  no other node; it leaves the listeners of every node as they were, calls nothing and
  schedules nothing. With no argument (the default "/") that is every node of the tree:
  isStreaming is false for every channel afterwards, and a later stream to a channel
  still schedules a delivery to each listener subscribed there before.
\<close>

theorem C6_silence_clears_subtree_only:
  "(\<forall>q. cache_at (listenersRoot (silence u p st)) q =
          (if prefix (resolved_keys u p) q then None else cache_at (listenersRoot st) q)) \<and>
   (\<forall>q. listeners_at (listenersRoot (silence u p st)) q = listeners_at (listenersRoot st) q) \<and>
   (\<forall>q. node_at (listenersRoot st) q \<noteq> None \<longrightarrow>
          node_at (listenersRoot (silence u p st)) q \<noteq> None) \<and>
   timers (silence u p st) = timers st \<and> calls (silence u p st) = calls st \<and>
   silence_default u st = silence u ''/'' st \<and>
   (\<forall>q. cache_at (listenersRoot (silence_default u st)) q = None) \<and>
   (\<forall>c. fst (isStreaming u c (silence_default u st)) = False) \<and>
   (\<forall>m. \<exists>st'. stream u (Msg m) (silence_default u st) = Inr st' \<and>
      timers st' = timers st @
        map (\<lambda>l. Deliver l (payload m))
          (listeners_at (listenersRoot st) (resolved_keys u (channel m))))"
proof -
  have m: "node_at (listenersRoot (silence u p st)) q \<noteq> None"
    if "node_at (listenersRoot st) q \<noteq> None" for q
  proof -
    have "node_at (descend (resolved_keys u p) (listenersRoot st)) q \<noteq> None"
      using that by (rule node_at_descend_mono)
    then have "node_at (spread_at (resolved_keys u p) (\<lambda>(ci, ls). (None, ls))
                 (descend (resolved_keys u p) (listenersRoot st))) q \<noteq> None"
      using node_at_spread_at_iff by blast
    then show ?thesis
      by (simp add: silence_def traverseChannelTree_def)
  qed
  have d: "cache_at (listenersRoot (silence_default u st)) q = None" for q
    by (simp add: silence_default_def silence_cache resolved_keys_root)
  have i: "fst (isStreaming u c (silence_default u st)) = False" for c
    by (simp add: isStreaming_eq d)
  have s: "\<exists>st'. stream u (Msg m) (silence_default u st) = Inr st' \<and>
      timers st' = timers st @
        map (\<lambda>l. Deliver l (payload m))
          (listeners_at (listenersRoot st) (resolved_keys u (channel m)))" for m
    by (simp add: stream_Msg silence_default_def silence_fields silence_listeners)
  show ?thesis
    using m d i s by (simp add: silence_cache silence_listeners silence_fields silence_default_def)
qed

theorem C6_silence_clears_subtree_only_witness:
  "node_at (listenersRoot
      \<lparr>listenersRoot =
         Node [(''a'', Node [(''b'', Node [] (Some \<lparr>channel = ''a/b'', payload = VNum 1\<rparr>)
                                      [Handler 0])] None [])] None [],
       timers = [], calls = [], closures = 0\<rparr>) [''a'', ''b''] \<noteq> None \<and>
   cache_at (listenersRoot
      \<lparr>listenersRoot =
         Node [(''a'', Node [(''b'', Node [] (Some \<lparr>channel = ''a/b'', payload = VNum 1\<rparr>)
                                      [Handler 0])] None [])] None [],
       timers = [], calls = [], closures = 0\<rparr>) [''a'', ''b''] \<noteq> None \<and>
   node_at (listenersRoot (silence_default id
      \<lparr>listenersRoot =
         Node [(''a'', Node [(''b'', Node [] (Some \<lparr>channel = ''a/b'', payload = VNum 1\<rparr>)
                                      [Handler 0])] None [])] None [],
       timers = [], calls = [], closures = 0\<rparr>)) [''a'', ''b''] \<noteq> None \<and>
   cache_at (listenersRoot (silence_default id
      \<lparr>listenersRoot =
         Node [(''a'', Node [(''b'', Node [] (Some \<lparr>channel = ''a/b'', payload = VNum 1\<rparr>)
                                      [Handler 0])] None [])] None [],
       timers = [], calls = [], closures = 0\<rparr>)) [''a'', ''b''] = None \<and>
   listeners_at (listenersRoot (silence_default id
      \<lparr>listenersRoot =
         Node [(''a'', Node [(''b'', Node [] (Some \<lparr>channel = ''a/b'', payload = VNum 1\<rparr>)
                                      [Handler 0])] None [])] None [],
       timers = [], calls = [], closures = 0\<rparr>)) [''a'', ''b''] = [Handler 0]"
proof -
  let ?S = "\<lparr>listenersRoot =
         Node [(''a'', Node [(''b'', Node [] (Some \<lparr>channel = ''a/b'', payload = VNum 1\<rparr>)
                                      [Handler 0])] None [])] None [],
       timers = [], calls = [], closures = 0\<rparr>"
  have ex: "node_at (listenersRoot ?S) [''a'', ''b''] \<noteq> None"
    by code_simp
  have c: "cache_at (listenersRoot ?S) [''a'', ''b''] \<noteq> None"
    by code_simp
  have l: "listeners_at (listenersRoot ?S) [''a'', ''b''] = [Handler 0]"
    by code_simp
  note t = C6_silence_clears_subtree_only [where u = id and p = "''/''" and st = ?S]
  have ex': "node_at (listenersRoot (silence_default id ?S)) [''a'', ''b''] \<noteq> None"
    using t ex by metis
  have c': "cache_at (listenersRoot (silence_default id ?S)) [''a'', ''b''] = None"
    using t by blast
  have l': "listeners_at (listenersRoot (silence_default id ?S)) [''a'', ''b''] = [Handler 0]"
    using t l by metis
  show ?thesis using ex c ex' c' l' by blast
qed

lemma stream_Msg_cache:
  "stream u (Msg m) st = Inr st' \<Longrightarrow>
   cache_at (listenersRoot st') q =
     (if q = resolved_keys u (channel m) then Some m else cache_at (listenersRoot st) q)"
  by (auto simp add: stream_Msg cache_at_set_currentInfo node_at_descend_self cache_at_descend)

lemma drain_snoc:
  "timers st = ts @ [t] \<Longrightarrow> drain u st = run_task u t (fold (run_task u) ts (st\<lparr>timers := []\<rparr>))"
  by (simp add: drain_def)


text \<open>
  C3 (as amended). stream caches its message at the node of the channel. subscribe
  calls nothing: it puts the replay check at the end of the queue of deferred tasks.
  When the check runs it calls the handler with the payload of the message that the
  node caches at that moment, and does nothing if the node caches none. So a handler
  subscribed to "a/b" while the node caches the message with payload 42 (in any later
  turn, whatever else is subscribed there) is called with 42 once the pending tasks
  have run, with no second stream, provided no stream to that channel and no silence
  over it comes before the check runs; and whenever the queue holds the check and the
  node caches a message, running the queue calls the handler with its payload.
\<close>

theorem C3_replay_of_cached_message:
  "(\<forall>st st'. stream u (Msg m) st = Inr st' \<longrightarrow>
      cache_at (listenersRoot st') (resolved_keys u (channel m)) = Some m) \<and>
   calls (subscribe u p (Handler h) st) = calls st \<and>
   timers (subscribe u p (Handler h) st) =
     timers st @ [Replay (resolved_keys u p) (Handler h)] \<and>
   (\<forall>s. cache_at (listenersRoot s) (resolved_keys u p) = Some m \<longrightarrow>
      calls (run_task u (Replay (resolved_keys u p) (Handler h)) s) =
        calls s @ [(h, payload m)]) \<and>
   (\<forall>s. cache_at (listenersRoot s) (resolved_keys u p) = None \<longrightarrow>
      run_task u (Replay (resolved_keys u p) (Handler h)) s = s) \<and>
   (cache_at (listenersRoot st) (resolved_keys u p) = Some m \<longrightarrow>
      (\<exists>cs. calls (drain u (subscribe u p (Handler h) st)) = cs @ [(h, payload m)])) \<and>
   (\<forall>s ts ts'. timers s = ts @ Replay (resolved_keys u p) (Handler h) # ts' \<and>
      cache_at (listenersRoot s) (resolved_keys u p) = Some m \<longrightarrow>
      count_list (calls s) (h, payload m) + 1 \<le>
        count_list (calls (drain u s)) (h, payload m))"
proof -
  let ?K = "resolved_keys u p"
  let ?R = "Replay ?K (Handler h)"
  let ?s2 = "subscribe u p (Handler h) st"
  have a: "cache_at (listenersRoot st') (resolved_keys u (channel m)) = Some m"
    if "stream u (Msg m) st = Inr st'" for st st'
    using stream_Msg_cache [OF that, of "resolved_keys u (channel m)"] by simp
  have t: "timers ?s2 = timers st @ [?R]"
    by (simp add: subscribe_fields)
  have c: "calls ?s2 = calls st"
    by (simp add: subscribe_fields)
  have r: "calls (run_task u ?R s) = calls s @ [(h, payload m)]"
    if "cache_at (listenersRoot s) ?K = Some m" for s
    using that by simp
  have n: "run_task u ?R s = s" if "cache_at (listenersRoot s) ?K = None" for s
    using that by simp
  have d: "\<exists>cs. calls (drain u ?s2) = cs @ [(h, payload m)]"
    if h: "cache_at (listenersRoot st) ?K = Some m"
  proof -
    let ?mid = "fold (run_task u) (timers st) (?s2\<lparr>timers := []\<rparr>)"
    have "cache_at (listenersRoot ?mid) ?K = cache_at (listenersRoot ?s2) ?K"
      by (simp add: fold_run_task_cache)
    also have "\<dots> = Some m"
      using h by (simp add: subscribe_cache)
    finally have "calls (run_task u ?R ?mid) = calls ?mid @ [(h, payload m)]"
      by simp
    moreover have "drain u ?s2 = run_task u ?R ?mid"
      using t by (rule drain_snoc)
    ultimately show ?thesis by simp
  qed
  have g: "count_list (calls s) (h, payload m) + 1 \<le> count_list (calls (drain u s)) (h, payload m)"
    if "timers s = ts @ ?R # ts'" and "cache_at (listenersRoot s) ?K = Some m" for s ts ts'
    using that by (rule replay_in_drain_count)
  have A: "\<forall>st st'. stream u (Msg m) st = Inr st' \<longrightarrow>
      cache_at (listenersRoot st') (resolved_keys u (channel m)) = Some m"
    using a by blast
  have R: "\<forall>s. cache_at (listenersRoot s) ?K = Some m \<longrightarrow>
      calls (run_task u ?R s) = calls s @ [(h, payload m)]"
    using r by blast
  have N: "\<forall>s. cache_at (listenersRoot s) ?K = None \<longrightarrow> run_task u ?R s = s"
    using n by blast
  have D: "cache_at (listenersRoot st) ?K = Some m \<longrightarrow>
      (\<exists>cs. calls (drain u ?s2) = cs @ [(h, payload m)])"
    using d by blast
  have G: "\<forall>s ts ts'. timers s = ts @ ?R # ts' \<and> cache_at (listenersRoot s) ?K = Some m \<longrightarrow>
      count_list (calls s) (h, payload m) + 1 \<le> count_list (calls (drain u s)) (h, payload m)"
    using g by blast
  show ?thesis
    by (intro conjI) (fact A, fact c, fact t, fact R, fact N, fact D, fact G)
qed


theorem C3_replay_of_cached_message_witness:
  "cache_at (listenersRoot
      \<lparr>listenersRoot =
         Node [(''a'', Node [(''b'', Node [] (Some \<lparr>channel = ''a/b'', payload = VNum 42\<rparr>)
                                      [Handler 1])] None [])] None [],
       timers = [], calls = [(1, VNum 42), (1, VNum 42)], closures = 0\<rparr>)
      (resolved_keys id ''a/b'') = Some \<lparr>channel = ''a/b'', payload = VNum 42\<rparr> \<and>
   calls (subscribe id ''a/b'' (Handler 7)
      \<lparr>listenersRoot =
         Node [(''a'', Node [(''b'', Node [] (Some \<lparr>channel = ''a/b'', payload = VNum 42\<rparr>)
                                      [Handler 1])] None [])] None [],
       timers = [], calls = [(1, VNum 42), (1, VNum 42)], closures = 0\<rparr>) =
     [(1, VNum 42), (1, VNum 42)] \<and>
   calls (drain id (subscribe id ''a/b'' (Handler 7)
      \<lparr>listenersRoot =
         Node [(''a'', Node [(''b'', Node [] (Some \<lparr>channel = ''a/b'', payload = VNum 42\<rparr>)
                                      [Handler 1])] None [])] None [],
       timers = [], calls = [(1, VNum 42), (1, VNum 42)], closures = 0\<rparr>)) =
     [(1, VNum 42), (1, VNum 42), (7, VNum 42)] \<and>
   (\<exists>st'. stream id (Msg \<lparr>channel = ''a/b'', payload = VNum 42\<rparr>)
             (subscribe id ''a/b'' (Handler 1) newRadio) = Inr st' \<and>
      drain id st' =
      \<lparr>listenersRoot =
         Node [(''a'', Node [(''b'', Node [] (Some \<lparr>channel = ''a/b'', payload = VNum 42\<rparr>)
                                      [Handler 1])] None [])] None [],
       timers = [], calls = [(1, VNum 42), (1, VNum 42)], closures = 0\<rparr>)"
proof -
  let ?m = "\<lparr>channel = ''a/b'', payload = VNum 42\<rparr>"
  let ?S = "\<lparr>listenersRoot =
         Node [(''a'', Node [(''b'', Node [] (Some ?m) [Handler 1])] None [])] None [],
       timers = [], calls = [(1, VNum 42), (1, VNum 42)], closures = 0\<rparr>"
  have c: "cache_at (listenersRoot ?S) (resolved_keys id ''a/b'') = Some ?m"
    by code_simp
  have d: "calls (drain id (subscribe id ''a/b'' (Handler 7) ?S)) =
           [(1, VNum 42), (1, VNum 42), (7, VNum 42)]"
    by code_simp
  let ?T = "\<lparr>listenersRoot =
         Node [(''a'', Node [(''b'', Node [] (Some ?m) [Handler 1])] None [])] None [],
       timers = [Replay [''a'', ''b''] (Handler 1), Deliver (Handler 1) (VNum 42)],
       calls = [], closures = 0\<rparr>"
  have o1: "stream id (Msg ?m) (subscribe id ''a/b'' (Handler 1) newRadio) = Inr ?T"
    by code_simp
  have o2: "drain id ?T = ?S"
    by code_simp
  have o: "\<exists>st'. stream id (Msg ?m) (subscribe id ''a/b'' (Handler 1) newRadio) = Inr st' \<and>
             drain id st' = ?S"
    using o1 o2 by blast
  have "calls (subscribe id ''a/b'' (Handler 7) ?S) = calls ?S"
    using C3_replay_of_cached_message
      [where u = id and p = "''a/b''" and h = 7 and st = ?S and m = ?m]
    by blast
  then have s: "calls (subscribe id ''a/b'' (Handler 7) ?S) = [(1, VNum 42), (1, VNum 42)]"
    by simp
  show ?thesis using c s d o by blast
qed

theorem C3_later_stream_or_silence_counterexample:
  "stream id (Msg \<lparr>channel = ''a/b'', payload = VNum 42\<rparr>) newRadio =
     Inr \<lparr>listenersRoot =
            Node [(''a'', Node [(''b'', Node [] (Some \<lparr>channel = ''a/b'', payload = VNum 42\<rparr>) [])]
                    None [])] None [],
          timers = [], calls = [], closures = 0\<rparr> \<and>
   stream id (Msg \<lparr>channel = ''a/b'', payload = VNum 43\<rparr>)
     \<lparr>listenersRoot =
        Node [(''a'', Node [(''b'', Node [] (Some \<lparr>channel = ''a/b'', payload = VNum 42\<rparr>) [])]
                None [])] None [],
      timers = [], calls = [], closures = 0\<rparr> =
     Inr \<lparr>listenersRoot =
            Node [(''a'', Node [(''b'', Node [] (Some \<lparr>channel = ''a/b'', payload = VNum 43\<rparr>) [])]
                    None [])] None [],
          timers = [], calls = [], closures = 0\<rparr> \<and>
   calls (drain id (subscribe id ''a/b'' (Handler 7)
     \<lparr>listenersRoot =
        Node [(''a'', Node [(''b'', Node [] (Some \<lparr>channel = ''a/b'', payload = VNum 43\<rparr>) [])]
                None [])] None [],
      timers = [], calls = [], closures = 0\<rparr>)) = [(7, VNum 43)] \<and>
   calls (drain id (silence_default id (subscribe id ''a/b'' (Handler 7)
     \<lparr>listenersRoot =
        Node [(''a'', Node [(''b'', Node [] (Some \<lparr>channel = ''a/b'', payload = VNum 42\<rparr>) [])]
                None [])] None [],
      timers = [], calls = [], closures = 0\<rparr>))) = []"
  by code_simp



lemma invoke_distinct:
  "(\<And>q. distinct (listeners_at (listenersRoot st) q)) \<Longrightarrow>
   distinct (listeners_at (listenersRoot (invoke u l v st)) q)"
proof (induction l arbitrary: st q)
  case (Handler i)
  then show ?case by simp
next
  case (Once k p h)
  then show ?case by (simp add: unsubscribe_listeners)
qed

lemma run_task_distinct:
  "(\<And>q. distinct (listeners_at (listenersRoot st) q)) \<Longrightarrow>
   distinct (listeners_at (listenersRoot (run_task u t st)) q)"
  by (cases t) (simp_all add: invoke_distinct split: option.splits)

lemma tick_distinct:
  "(\<And>q. distinct (listeners_at (listenersRoot st) q)) \<Longrightarrow>
   distinct (listeners_at (listenersRoot (tick u st)) q)"
proof (cases "timers st")
  case Nil
  assume "\<And>q. distinct (listeners_at (listenersRoot st) q)"
  then show ?thesis using Nil by (simp add: tick_def)
next
  case (Cons t ts)
  assume d: "\<And>q. distinct (listeners_at (listenersRoot st) q)"
  have "distinct (listeners_at (listenersRoot (run_task u t (st\<lparr>timers := ts\<rparr>))) q)"
    by (rule run_task_distinct) (simp add: d)
  then show ?thesis using Cons by (simp add: tick_def)
qed

lemma broadcast_listeners:
  "broadcast u a st = Inr st' \<Longrightarrow>
   listeners_at (listenersRoot st') q = listeners_at (listenersRoot st) q"
  by (auto simp add: broadcast_def traverseChannelTree_def Let_def forEach_deliver_eq
      listeners_at_descend split: sum.splits)

lemma stream_listeners:
  "stream u a st = Inr st' \<Longrightarrow>
   listeners_at (listenersRoot st') q = listeners_at (listenersRoot st) q"
  by (auto simp add: stream_def traverseChannelTree_def Let_def forEach_deliver_eq
      listeners_at_descend listeners_at_set_currentInfo split: sum.splits)

lemma reachable_distinct:
  "reachable u st \<Longrightarrow> distinct (listeners_at (listenersRoot st) q)"
proof (induction arbitrary: q rule: reachable.induct)
  case reach_new
  show ?case by (simp add: newRadio_def listeners_at_emptyNode)
next
  case (reach_subscribe st p l)
  then show ?case by (auto simp add: subscribe_listeners)
next
  case (reach_unsubscribe st p l)
  then show ?case by (simp add: unsubscribe_listeners)
next
  case (reach_listenOnce st p l)
  then show ?case by (auto simp add: listenOnce_listeners)
next
  case (reach_broadcast st a st')
  then show ?case by (simp add: broadcast_listeners)
next
  case (reach_stream st a st')
  then show ?case by (simp add: stream_listeners)
next
  case (reach_silence st p)
  then show ?case by (simp add: silence_listeners)
next
  case (reach_isStreaming st p)
  then show ?case by (simp add: isStreaming_eq listeners_at_descend)
next
  case (reach_tick st)
  then show ?case by (simp add: tick_distinct)
qed

lemma count_list_distinct: "distinct xs \<Longrightarrow> x \<in> set xs \<Longrightarrow> count_list xs x = 1"
  by (induction xs) auto

lemma subscribe_node_exists:
  "node_at (listenersRoot (subscribe u p h st)) (resolved_keys u p) \<noteq> None"
proof -
  have e: "node_at (descend (resolved_keys u p) (listenersRoot st)) (resolved_keys u p) \<noteq> None"
    by (rule node_at_descend_self)
  then have "node_at (set_listeners (resolved_keys u p) ls (descend (resolved_keys u p) (listenersRoot st)))
               (resolved_keys u p) \<noteq> None" for ls
    using node_at_set_listeners_iff by blast
  then show ?thesis using e
    by (simp add: subscribe_def traverseChannelTree_def Let_def setTimeout_def)
qed

lemma subscribe_twice_root:
  "listenersRoot (subscribe u p h (subscribe u p h st)) = listenersRoot (subscribe u p h st)"
proof -
  let ?s = "subscribe u p h st"
  have m: "h \<in> set (listeners_at (listenersRoot ?s) (resolved_keys u p))"
    by (simp add: subscribe_listeners)
  have d: "descend (resolved_keys u p) (listenersRoot ?s) = listenersRoot ?s"
    using subscribe_node_exists by (rule descend_existing)
  show ?thesis
    using m by (simp add: subscribe_def [of u p h ?s] traverseChannelTree_def Let_def setTimeout_def
        d array_includes_def)
qed

text \<open>
  C9. In every state the program can reach, no listener list holds a listener twice.
  Subscribing a handler that is subscribed to the path already leaves the tree as it
  is (the call still schedules its replay check), so after two subscribes and one
  unsubscribe the handler is not among the listeners of the path; a subscribe after an
  unsubscribe registers it again, once.
\<close>

theorem C9_subscribe_idempotent:
  assumes "reachable u st"
  shows "(\<forall>q. distinct (listeners_at (listenersRoot st) q)) \<and>
         listenersRoot (subscribe u p h (subscribe u p h st)) = listenersRoot (subscribe u p h st) \<and>
         count_list (listeners_at (listenersRoot (subscribe u p h (subscribe u p h st))) (resolved_keys u p)) h = 1 \<and>
         count_list (listeners_at (listenersRoot
            (unsubscribe u p h (subscribe u p h (subscribe u p h st)))) (resolved_keys u p)) h = 0 \<and>
         count_list (listeners_at (listenersRoot
            (subscribe u p h (unsubscribe u p h (subscribe u p h (subscribe u p h st))))) (resolved_keys u p)) h = 1"
proof -
  let ?s2 = "subscribe u p h (subscribe u p h st)"
  let ?s3 = "unsubscribe u p h ?s2"
  let ?s4 = "subscribe u p h ?s3"
  have r2: "reachable u ?s2" using assms by (intro reach_subscribe)
  have r3: "reachable u ?s3" using r2 by (rule reach_unsubscribe)
  have r4: "reachable u ?s4" using r3 by (rule reach_subscribe)
  have d2: "distinct (listeners_at (listenersRoot ?s2) (resolved_keys u p))"
    using r2 by (rule reachable_distinct)
  have d4: "distinct (listeners_at (listenersRoot ?s4) (resolved_keys u p))"
    using r4 by (rule reachable_distinct)
  have m2: "h \<in> set (listeners_at (listenersRoot ?s2) (resolved_keys u p))"
    by (simp add: subscribe_listeners)
  have c2: "count_list (listeners_at (listenersRoot ?s2) (resolved_keys u p)) h = 1"
    using d2 m2 by (rule count_list_distinct)
  have "h \<notin> set (listeners_at (listenersRoot ?s3) (resolved_keys u p))"
    using d2 by (simp add: unsubscribe_listeners)
  then have c3: "count_list (listeners_at (listenersRoot ?s3) (resolved_keys u p)) h = 0"
    by (simp add: count_list_0_iff)
  have m4: "h \<in> set (listeners_at (listenersRoot ?s4) (resolved_keys u p))"
    by (simp add: subscribe_listeners)
  have c4: "count_list (listeners_at (listenersRoot ?s4) (resolved_keys u p)) h = 1"
    using d4 m4 by (rule count_list_distinct)
  show ?thesis
    using assms c2 c3 c4 by (simp add: reachable_distinct subscribe_twice_root)
qed

theorem C9_subscribe_idempotent_witness:
  "reachable id newRadio \<and>
   listeners_at (listenersRoot (subscribe id ''a'' (Handler 1) (subscribe id ''a'' (Handler 1) newRadio)))
     [''a''] = [Handler 1] \<and>
   count_list (listeners_at (listenersRoot
      (unsubscribe id ''a'' (Handler 1) (subscribe id ''a'' (Handler 1) (subscribe id ''a'' (Handler 1) newRadio))))
      (resolved_keys id ''a'')) (Handler 1) = 0"
proof -
  have l: "listeners_at (listenersRoot (subscribe id ''a'' (Handler 1) (subscribe id ''a'' (Handler 1) newRadio)))
     [''a''] = [Handler 1]"
    by code_simp
  show ?thesis
    using l reach_new
      C9_subscribe_idempotent [OF reach_new, where u = id and p = "''a''" and h = "Handler 1"]
    by blast
qed

lemma fold_deliver_count:
  "(\<And>l. l \<in> set ls \<Longrightarrow> \<exists>g. l = Handler g) \<Longrightarrow>
   count_list (calls (fold (run_task u) (map (\<lambda>l. Deliver l v) ls) st)) (h, v) =
     count_list (calls st) (h, v) + count_list ls (Handler h)"
proof (induction ls arbitrary: st)
  case Nil
  show ?case by simp
next
  case (Cons l ls)
  obtain g where g: "l = Handler g" using Cons.prems by auto
  have "count_list (calls (fold (run_task u) (map (\<lambda>l. Deliver l v) ls) (run_task u (Deliver l v) st))) (h, v) =
        count_list (calls (run_task u (Deliver l v) st)) (h, v) + count_list ls (Handler h)"
    using Cons.prems by (intro Cons.IH) simp
  then show ?case using g by simp
qed

lemma deliver_in_fold_count:
  "Deliver (Handler h) v \<in> set ts \<Longrightarrow>
   count_list (calls st) (h, v) + 1 \<le> count_list (calls (fold (run_task u) ts st)) (h, v)"
proof (induction ts arbitrary: st)
  case Nil
  then show ?case by simp
next
  case (Cons t ts)
  show ?case
  proof (cases "t = Deliver (Handler h) v")
    case True
    have "count_list (calls (run_task u t st)) (h, v) = count_list (calls st) (h, v) + 1"
      using True by simp
    moreover have "count_list (calls (run_task u t st)) (h, v) \<le>
                   count_list (calls (fold (run_task u) ts (run_task u t st))) (h, v)"
      by (rule fold_run_task_count_le)
    ultimately show ?thesis by simp
  next
    case False
    with Cons.prems have "Deliver (Handler h) v \<in> set ts" by simp
    then have "count_list (calls (run_task u t st)) (h, v) + 1 \<le>
               count_list (calls (fold (run_task u) ts (run_task u t st))) (h, v)"
      by (rule Cons.IH)
    moreover have "count_list (calls st) (h, v) \<le> count_list (calls (run_task u t st)) (h, v)"
      using run_task_calls_prefix by (rule count_list_prefix_le)
    ultimately show ?thesis by simp
  qed
qed

text \<open>
  C10. After subscribe(p, h) and, before any deferred task runs, stream of a message
  for p with payload v, nothing has been called yet, and the queue holds what was
  pending, then the replay check of subscribe, then one delivery for each listener of
  the node, h among them once. When the queue has run, h has been called with v at
  least two more times than before: by the replay check, which finds the message that
  stream cached after the subscribe, and by the delivery of the stream. It is two
  exactly when nothing else calls h: no task was pending, and the listeners of the
  node are handlers of the caller, each there once.
\<close>

theorem C10_subscribe_then_stream_calls_twice:
  assumes "stream u (Msg \<lparr>channel = p, payload = v\<rparr>) (subscribe u p (Handler h) st) = Inr st2"
  shows "calls st2 = calls st \<and>
         timers st2 = timers st @ Replay (resolved_keys u p) (Handler h) #
            map (\<lambda>l. Deliver l v) (listeners_at (listenersRoot st2) (resolved_keys u p)) \<and>
         Handler h \<in> set (listeners_at (listenersRoot st2) (resolved_keys u p)) \<and>
         cache_at (listenersRoot st2) (resolved_keys u p) = Some \<lparr>channel = p, payload = v\<rparr> \<and>
         calls (run_task u (Replay (resolved_keys u p) (Handler h)) st2) = calls st @ [(h, v)] \<and>
         calls (run_task u (Deliver (Handler h) v) st2) = calls st @ [(h, v)] \<and>
         count_list (calls st) (h, v) + 2 \<le> count_list (calls (drain u st2)) (h, v) \<and>
         (timers st = [] \<and>
          (\<forall>l \<in> set (listeners_at (listenersRoot st) (resolved_keys u p)). \<exists>g. l = Handler g) \<and>
          distinct (listeners_at (listenersRoot st) (resolved_keys u p)) \<longrightarrow>
            calls (tick u st2) = calls st @ [(h, v)] \<and>
            count_list (calls (drain u st2)) (h, v) = count_list (calls st) (h, v) + 2)"
proof -
  let ?m = "\<lparr>channel = p, payload = v\<rparr>"
  let ?s1 = "subscribe u p (Handler h) st"
  let ?ls = "listeners_at (listenersRoot ?s1) (resolved_keys u p)"
  let ?R = "Replay (resolved_keys u p) (Handler h)"
  have ls2: "listeners_at (listenersRoot st2) (resolved_keys u p) = ?ls"
    using assms by (rule stream_listeners)
  have st2: "st2 = ?s1\<lparr>listenersRoot :=
              set_currentInfo (resolved_keys u p) (Some ?m) (descend (resolved_keys u p) (listenersRoot ?s1)),
            timers := timers ?s1 @ map (\<lambda>l. Deliver l v) ?ls\<rparr>"
    using assms by (simp add: stream_Msg)
  have c: "calls st2 = calls st"
    by (simp add: st2 subscribe_fields)
  have t: "timers st2 = timers st @ ?R # map (\<lambda>l. Deliver l v) ?ls"
    by (simp add: st2 subscribe_fields)
  have mem: "Handler h \<in> set ?ls"
    by (simp add: subscribe_listeners)
  have cache: "cache_at (listenersRoot st2) (resolved_keys u p) = Some ?m"
    using stream_Msg_cache [OF assms, of "resolved_keys u p"] by simp
  have r0: "calls (run_task u ?R st2) = calls st @ [(h, v)]"
    using cache c by simp
  have d0: "calls (run_task u (Deliver (Handler h) v) st2) = calls st @ [(h, v)]"
    using c by simp
  let ?a = "fold (run_task u) (timers st) (st2\<lparr>timers := []\<rparr>)"
  let ?b = "run_task u ?R ?a"
  have dr: "drain u st2 = fold (run_task u) (map (\<lambda>l. Deliver l v) ?ls) ?b"
    by (simp add: drain_def t)
  have "cache_at (listenersRoot ?a) (resolved_keys u p) = Some ?m"
    using cache by (simp add: fold_run_task_cache)
  then have b: "calls ?b = calls ?a @ [(h, v)]"
    by simp
  have "count_list (calls (st2\<lparr>timers := []\<rparr>)) (h, v) \<le> count_list (calls ?a) (h, v)"
    by (rule fold_run_task_count_le)
  then have a: "count_list (calls st) (h, v) \<le> count_list (calls ?a) (h, v)"
    using c by simp
  have "Deliver (Handler h) v \<in> set (map (\<lambda>l. Deliver l v) ?ls)"
    using mem by simp
  then have "count_list (calls ?b) (h, v) + 1 \<le> count_list (calls (drain u st2)) (h, v)"
    unfolding dr by (rule deliver_in_fold_count)
  then have least: "count_list (calls st) (h, v) + 2 \<le> count_list (calls (drain u st2)) (h, v)"
    using a b by simp
  have exact: "calls (tick u st2) = calls st @ [(h, v)] \<and>
      count_list (calls (drain u st2)) (h, v) = count_list (calls st) (h, v) + 2"
    if e: "timers st = []"
      and pl: "\<forall>l \<in> set (listeners_at (listenersRoot st) (resolved_keys u p)). \<exists>g. l = Handler g"
      and di: "distinct (listeners_at (listenersRoot st) (resolved_keys u p))"
  proof -
    have plain: "\<exists>g. l = Handler g" if "l \<in> set ?ls" for l
      using that pl by (auto simp add: subscribe_listeners split: if_splits)
    have "distinct ?ls"
      using di by (auto simp add: subscribe_listeners)
    then have one: "count_list ?ls (Handler h) = 1"
      using mem by (rule count_list_distinct)
    have a': "?a = st2\<lparr>timers := []\<rparr>"
      using e by simp
    have tk: "calls (tick u st2) = calls st @ [(h, v)]"
      using cache c t e by (simp add: tick_def)
    have "count_list (calls (drain u st2)) (h, v) =
          count_list (calls ?b) (h, v) + count_list ?ls (Handler h)"
      unfolding dr using plain by (intro fold_deliver_count) simp
    then have "count_list (calls (drain u st2)) (h, v) = count_list (calls st) (h, v) + 2"
      using b a' c one by simp
    then show ?thesis using tk by simp
  qed
  show ?thesis using c t mem cache r0 d0 least exact ls2 by simp
qed

theorem C10_subscribe_then_stream_calls_twice_witness:
  "timers newRadio = [] \<and>
   listeners_at (listenersRoot newRadio) (resolved_keys id ''a/b'') = [] \<and>
   (\<exists>st2. stream id (Msg \<lparr>channel = ''a/b'', payload = VNum 5\<rparr>)
             (subscribe id ''a/b'' (Handler 0) newRadio) = Inr st2 \<and>
      calls st2 = [] \<and>
      calls (drain id st2) = [(0, VNum 5), (0, VNum 5)] \<and>
      count_list (calls (drain id st2)) (0, VNum 5) = 2)"
proof -
  let ?m = "\<lparr>channel = ''a/b'', payload = VNum 5\<rparr>"
  let ?s2 = "\<lparr>listenersRoot =
                Node [(''a'', Node [(''b'', Node [] (Some ?m) [Handler 0])] None [])] None [],
              timers = [Replay [''a'', ''b''] (Handler 0), Deliver (Handler 0) (VNum 5)],
              calls = [], closures = 0\<rparr>"
  have t: "timers newRadio = []"
    by (simp add: newRadio_def)
  have e: "listeners_at (listenersRoot newRadio) (resolved_keys id ''a/b'') = []"
    by code_simp
  have run: "stream id (Msg ?m) (subscribe id ''a/b'' (Handler 0) newRadio) = Inr ?s2"
    by code_simp
  have d: "calls (drain id ?s2) = [(0, VNum 5), (0, VNum 5)]"
    by code_simp
  have h2: "\<forall>l \<in> set (listeners_at (listenersRoot newRadio) (resolved_keys id ''a/b'')). \<exists>g. l = Handler g"
    using e by simp
  have h3: "distinct (listeners_at (listenersRoot newRadio) (resolved_keys id ''a/b''))"
    using e by simp
  have "calls ?s2 = calls newRadio \<and>
        count_list (calls (drain id ?s2)) (0, VNum 5) = count_list (calls newRadio) (0, VNum 5) + 2"
    using C10_subscribe_then_stream_calls_twice [OF run] t h2 h3 by blast
  then have "calls ?s2 = [] \<and> count_list (calls (drain id ?s2)) (0, VNum 5) = 2"
    by (simp add: newRadio_def)
  then show ?thesis using t e run d by blast
qed

text \<open>
  C1 at the input that breaks it: listenOnce("c", h), then two streams to "c" before
  any deferred task runs. The wrapper of listenOnce removes itself from the listeners
  when it is first called, but the replay check and the two deliveries are scheduled
  already, and each calls the wrapper: h is called three times (with 2 by the replay
  check, then with 1 and with 2). A handler registered with subscribe is called three
  times as well at this input.
\<close>

theorem C1_listenOnce_same_turn_three_calls:
  "stream u (Msg \<lparr>channel = ''c'', payload = VNum 1\<rparr>) (listenOnce u ''c'' (Handler 0) newRadio) =
     Inr \<lparr>listenersRoot =
            Node [(''c'', Node [] (Some \<lparr>channel = ''c'', payload = VNum 1\<rparr>)
                    [Once 0 ''c'' (Handler 0)])] None [],
          timers = [Replay [''c''] (Once 0 ''c'' (Handler 0)),
                    Deliver (Once 0 ''c'' (Handler 0)) (VNum 1)],
          calls = [], closures = 1\<rparr> \<and>
   stream u (Msg \<lparr>channel = ''c'', payload = VNum 2\<rparr>)
     \<lparr>listenersRoot =
        Node [(''c'', Node [] (Some \<lparr>channel = ''c'', payload = VNum 1\<rparr>)
                [Once 0 ''c'' (Handler 0)])] None [],
      timers = [Replay [''c''] (Once 0 ''c'' (Handler 0)),
                Deliver (Once 0 ''c'' (Handler 0)) (VNum 1)],
      calls = [], closures = 1\<rparr> =
     Inr \<lparr>listenersRoot =
            Node [(''c'', Node [] (Some \<lparr>channel = ''c'', payload = VNum 2\<rparr>)
                    [Once 0 ''c'' (Handler 0)])] None [],
          timers = [Replay [''c''] (Once 0 ''c'' (Handler 0)),
                    Deliver (Once 0 ''c'' (Handler 0)) (VNum 1),
                    Deliver (Once 0 ''c'' (Handler 0)) (VNum 2)],
          calls = [], closures = 1\<rparr> \<and>
   drain u
     \<lparr>listenersRoot =
        Node [(''c'', Node [] (Some \<lparr>channel = ''c'', payload = VNum 2\<rparr>)
                [Once 0 ''c'' (Handler 0)])] None [],
      timers = [Replay [''c''] (Once 0 ''c'' (Handler 0)),
                Deliver (Once 0 ''c'' (Handler 0)) (VNum 1),
                Deliver (Once 0 ''c'' (Handler 0)) (VNum 2)],
      calls = [], closures = 1\<rparr> =
     \<lparr>listenersRoot =
        Node [(''c'', Node [] (Some \<lparr>channel = ''c'', payload = VNum 2\<rparr>) [])] None [],
      timers = [],
      calls = [(0, VNum 2), (0, VNum 1), (0, VNum 2)], closures = 1\<rparr>"
  by code_simp

text \<open>
  When the deferred tasks run after each call, the handler is called once: the second
  stream finds the wrapper gone.
\<close>

lemma listenOnce_turn_by_turn_one_call:
  "stream u (Msg \<lparr>channel = ''c'', payload = VNum 1\<rparr>) (drain u (listenOnce u ''c'' (Handler 0) newRadio)) =
     Inr \<lparr>listenersRoot =
            Node [(''c'', Node [] (Some \<lparr>channel = ''c'', payload = VNum 1\<rparr>)
                    [Once 0 ''c'' (Handler 0)])] None [],
          timers = [Deliver (Once 0 ''c'' (Handler 0)) (VNum 1)],
          calls = [], closures = 1\<rparr> \<and>
   stream u (Msg \<lparr>channel = ''c'', payload = VNum 2\<rparr>)
     (drain u \<lparr>listenersRoot =
            Node [(''c'', Node [] (Some \<lparr>channel = ''c'', payload = VNum 1\<rparr>)
                    [Once 0 ''c'' (Handler 0)])] None [],
          timers = [Deliver (Once 0 ''c'' (Handler 0)) (VNum 1)],
          calls = [], closures = 1\<rparr>) =
     Inr \<lparr>listenersRoot =
            Node [(''c'', Node [] (Some \<lparr>channel = ''c'', payload = VNum 2\<rparr>) [])] None [],
          timers = [], calls = [(0, VNum 1)], closures = 1\<rparr>"
  by code_simp

end
